theory Spec2Isabelle
  imports Complex_Main "HOL-Library.Word"
begin

unbundle bit_operations_syntax

section \<open>JavaScript values used by the decoder\<close>

text \<open>
  A Node.js \<open>Buffer\<close> is a sequence of octets. Numbers that the decoder computes are
  integers well inside the exactly representable range of a double, except for the channel
  (the result of \<open>%\<close>, which is NaN for a zero divisor) and the voltage (a quotient,
  modelled in exact real arithmetic: the rounding of the IEEE quotient is not modelled).
\<close>

type_synonym byte = "8 word"

datatype jsnum = Num nat | NaN

text \<open>The only exceptions the decoder's calls can raise.\<close>

datatype error = TooShort nat | RangeError

text \<open>
  The bitwise operators of JavaScript convert their operands to 32-bit two's-complement
  integers (ToInt32) and give such an integer; a shift count is taken modulo 32.
\<close>

definition toInt32 :: "int \<Rightarrow> int" where
  "toInt32 x = signed_take_bit 31 x"

definition js_or :: "int \<Rightarrow> int \<Rightarrow> int" where
  "js_or a b = toInt32 (toInt32 a OR toInt32 b)"

definition js_and :: "int \<Rightarrow> int \<Rightarrow> int" where
  "js_and a b = toInt32 (toInt32 a AND toInt32 b)"

definition js_shl :: "int \<Rightarrow> nat \<Rightarrow> int" where
  "js_shl a n = toInt32 (push_bit (n mod 32) (toInt32 a))"

text \<open>\<open>a % b\<close> on non-negative integers: NaN when the divisor is 0.\<close>

definition js_mod :: "nat \<Rightarrow> nat \<Rightarrow> jsnum" where
  "js_mod a b = (if b = 0 then NaN else Num (a mod b))"

text \<open>\<open>buf.readUInt16LE(off)\<close> and \<open>buf.readUInt32LE(off)\<close> raise a RangeError
  when the read does not fit into the buffer.\<close>

definition readUInt16LE :: "byte list \<Rightarrow> nat \<Rightarrow> error + nat" where
  "readUInt16LE data off =
     (if off + 2 \<le> length data
      then Inr (unat (data ! off) + 256 * unat (data ! (off + 1)))
      else Inl RangeError)"

definition readUInt32LE :: "byte list \<Rightarrow> nat \<Rightarrow> error + nat" where
  "readUInt32LE data off =
     (if off + 4 \<le> length data
      then Inr (unat (data ! off) + 256 * unat (data ! (off + 1))
                + 65536 * unat (data ! (off + 2)) + 16777216 * unat (data ! (off + 3)))
      else Inl RangeError)"

text \<open>\<open>buf.toString('ascii', start, end)\<close>: the range is clamped to the buffer and the
  highest bit of every byte is cleared before it becomes a character.\<close>

definition asciiChar :: "byte \<Rightarrow> char" where
  "asciiChar b = char_of (unat (b AND 0x7F))"

definition toStringAscii :: "byte list \<Rightarrow> nat \<Rightarrow> nat \<Rightarrow> string" where
  "toStringAscii data start fin = map asciiChar (take (fin - start) (drop start data))"

text \<open>\<open>buf.slice(start, end).toString('hex')\<close>: two lower-case digits per byte.\<close>

definition hexDigit :: "nat \<Rightarrow> char" where
  "hexDigit d = (if d < 10 then char_of (48 + d) else char_of (87 + d))"

definition toStringHex :: "byte list \<Rightarrow> string" where
  "toStringHex bs = concat (map (\<lambda>b. [hexDigit (unat b div 16), hexDigit (unat b mod 16)]) bs)"

definition bufferSlice :: "byte list \<Rightarrow> nat \<Rightarrow> nat \<Rightarrow> byte list" where
  "bufferSlice data start fin = take (fin - start) (drop start data)"

text \<open>\<open>str.replace(/\0/g, '')\<close>\<close>

definition removeNUL :: "string \<Rightarrow> string" where
  "removeNUL s = filter (\<lambda>c. c \<noteq> CHR 0x00) s"

section \<open>The stream processor and its decoder\<close>

record sample =
  sampleNumber :: nat
  sampleIndex :: nat
  channel :: jsnum
  rawValue :: int
  voltageUv :: real
  rawHex :: string

record packet =
  header :: string
  packetType :: nat
  numChannels :: nat
  payloadSize :: nat
  samples :: "sample list"
  deviceModel :: "string option"

record entry =
  time :: int
  voltage :: real

text \<open>The constructor's \<open>options\<close> object: an absent field is \<open>None\<close>.\<close>

record options =
  opt_windowDuration :: "real option"
  opt_samplingRate :: "real option"
  opt_adcScale :: "real option"

record processor =
  windowDuration :: real
  samplingRate :: real
  adcScale :: real
  channelBuffers :: "jsnum \<rightharpoonup> entry list"
  maxBufferSamples :: int
  packetCount :: nat
  sampleCount :: nat
  startTime :: "int option"
  lastAnalysisTime :: "jsnum \<rightharpoonup> int"
  analysisInterval :: int

text \<open>\<open>x || d\<close> for an optional number: the default replaces an absent value and 0.\<close>

definition orDefault :: "real option \<Rightarrow> real \<Rightarrow> real" where
  "orDefault x d = (case x of None \<Rightarrow> d | Some v \<Rightarrow> if v = 0 then d else v)"

text \<open>
  The constructor. The numbers of the options are IEEE 754 doubles, and the capacity is
  \<open>Math.floor\<close> of a product of doubles, which rounds after each multiplication. The
  multiplication of doubles is the parameter \<open>mulDouble\<close>: whatever it yields, the capacity
  is the floor of \<open>mulDouble (mulDouble windowDuration samplingRate) 1.5\<close>. The options are
  finite and the products do not overflow.
\<close>

definition EEGStreamProcessor :: "(real \<Rightarrow> real \<Rightarrow> real) \<Rightarrow> options \<Rightarrow> processor" where
  "EEGStreamProcessor mulDouble opts =
     (let wd = orDefault (opt_windowDuration opts) 6.0;
          sr = orDefault (opt_samplingRate opts) 250.0;
          sc = orDefault (opt_adcScale opts) 100.0
      in \<lparr> windowDuration = wd, samplingRate = sr, adcScale = sc,
           channelBuffers = Map.empty,
           maxBufferSamples = \<lfloor>mulDouble (mulDouble wd sr) 1.5\<rfloor>,
           packetCount = 0, sampleCount = 0, startTime = None,
           lastAnalysisTime = Map.empty, analysisInterval = 2000 \<rparr>)"

text \<open>
  The loop of \<open>decodePacket\<close> over the 7-byte records of a type-2 frame. The reads
  \<open>data[offset]\<close>, \<open>data[offset + 1]\<close> and \<open>data[offset + 2]\<close> are inside the buffer
  whenever the loop condition holds.
\<close>

function decodeSamples ::
  "real \<Rightarrow> nat \<Rightarrow> byte list \<Rightarrow> nat \<Rightarrow> sample list \<Rightarrow> error + sample list" where
  "decodeSamples scale nch data offset acc =
     (if int offset + 7 \<le> int (length data) - 10 then
        (let v = js_or (js_or (uint (data ! offset)) (js_shl (uint (data ! (offset + 1))) 8))
                       (js_shl (uint (data ! (offset + 2))) 16);
             v' = (if js_and v 0x800000 \<noteq> 0 then v - 0x1000000 else v)
         in case readUInt16LE data (offset + 4) of
              Inl e \<Rightarrow> Inl e
            | Inr sampleIdx \<Rightarrow>
                decodeSamples scale nch data (offset + 7)
                  (acc @ [\<lparr> sampleNumber = length acc,
                            sampleIndex = sampleIdx,
                            channel = js_mod sampleIdx nch,
                            rawValue = v',
                            voltageUv = real_of_int v' / scale,
                            rawHex = toStringHex (bufferSlice data offset (offset + 7)) \<rparr>]))
      else Inr acc)"
  by pat_completeness auto
termination
  by (relation "measure (\<lambda>(scale, nch, data, offset, acc). length data - offset)") auto

declare decodeSamples.simps [simp del]

definition decodePacket :: "processor \<Rightarrow> byte list \<Rightarrow> error + packet" where
  "decodePacket this data =
     (if length data < 12 then Inl (TooShort (length data))
      else
        case readUInt32LE data 8 of
          Inl e \<Rightarrow> Inl e
        | Inr psize \<Rightarrow>
            (let result = \<lparr> header = toStringAscii data 0 4,
                             packetType = unat (data ! 5),
                             numChannels = unat (data ! 7),
                             payloadSize = psize,
                             samples = [],
                             deviceModel = None \<rparr>
             in if packetType result = 1
                then Inr (result \<lparr> deviceModel := Some (removeNUL (toStringAscii data 12 17)) \<rparr>)
                else if packetType result = 2
                then (case decodeSamples (adcScale this) (numChannels result) data 12 [] of
                        Inl e \<Rightarrow> Inl e
                      | Inr ss \<Rightarrow> Inr (result \<lparr> samples := ss \<rparr>))
                else Inr result))"

section \<open>Routing decoded samples into the channel buffers\<close>

text \<open>
  The body of the loop over \<open>packet.samples\<close> in \<open>processPacket\<close>: the buffer of the
  sample's channel is created on first sight (together with the channel's analysis time),
  the entry is pushed, and one \<open>shift()\<close> follows when the buffer has grown beyond
  \<open>maxBufferSamples\<close>. The keys of a JavaScript \<open>Map\<close> are compared with SameValueZero,
  so NaN is a key like any other.
\<close>

definition pushSample :: "int \<Rightarrow> processor \<Rightarrow> sample \<Rightarrow> processor" where
  "pushSample currentTime this s =
     (let ch = channel s;
          this1 = (case channelBuffers this ch of
                     None \<Rightarrow> this \<lparr> channelBuffers := (channelBuffers this)(ch \<mapsto> []),
                                    lastAnalysisTime := (lastAnalysisTime this)(ch \<mapsto> currentTime) \<rparr>
                   | Some b \<Rightarrow> this);
          buffer = (case channelBuffers this1 ch of None \<Rightarrow> [] | Some b \<Rightarrow> b)
                     @ [\<lparr> time = currentTime, voltage = voltageUv s \<rparr>];
          buffer' = (if int (length buffer) > maxBufferSamples this1 then tl buffer else buffer)
      in this1 \<lparr> channelBuffers := (channelBuffers this1)(ch \<mapsto> buffer'),
                 sampleCount := sampleCount this1 + 1 \<rparr>)"

text \<open>
  \<open>processPacket\<close> with the value of \<open>Date.now()\<close> as a parameter. An exception of the
  decoder is caught and logged, which leaves the processor as it was. \<open>analyzeChannel\<close>
  and the progress report only write to the console; of the analysis check, the update of
  \<open>lastAnalysisTime\<close> is what remains in the state.
\<close>

definition processPacket :: "int \<Rightarrow> processor \<Rightarrow> byte list \<Rightarrow> processor" where
  "processPacket currentTime this data =
     (case decodePacket this data of
        Inl e \<Rightarrow> this
      | Inr packet \<Rightarrow>
          if packetType packet = 1 then this
          else if packetType packet \<noteq> 2 \<or> samples packet = [] then this
          else
            (let this1 = this \<lparr> packetCount := packetCount this + 1 \<rparr>;
                 this2 = (if startTime this1 = None \<or> startTime this1 = Some 0
                          then this1 \<lparr> startTime := Some currentTime \<rparr> else this1);
                 this3 = foldl (pushSample currentTime) this2 (samples packet)
             in this3 \<lparr> lastAnalysisTime :=
                   (\<lambda>ch. case lastAnalysisTime this3 ch of
                            None \<Rightarrow> None
                          | Some lastTime \<Rightarrow>
                              if currentTime - lastTime \<ge> analysisInterval this3
                              then Some currentTime else Some lastTime) \<rparr>))"

text \<open>The notifications of a session, each with the clock value at its delivery.\<close>

definition run :: "processor \<Rightarrow> (int \<times> byte list) list \<Rightarrow> processor" where
  "run this events = foldl (\<lambda>p (t, d). processPacket t p d) this events"

section \<open>The start of a streaming session\<close>

definition CMD_START_STREAM :: "byte list" where
  "CMD_START_STREAM = [0x43, 0x54, 0x52, 0x4C, 0x00, 0x03, 0x00, 0x05]"

definition CMD_STOP_STREAM :: "byte list" where
  "CMD_STOP_STREAM = [0x43, 0x54, 0x52, 0x4C, 0x00, 0x03, 0x00, 0x03]"

definition CMD_KEEP_ALIVE :: "byte list" where
  "CMD_KEEP_ALIVE = [0x43, 0x54, 0x52, 0x4C, 0x00, 0x05, 0x00, 0x02]"

definition CMD_ALT_START :: "byte list" where
  "CMD_ALT_START = [0x43, 0x54, 0x52, 0x4C, 0x00, 0x04, 0x00, 0x01]"

text \<open>The processor that \<open>streamEEGData\<close> creates. Its products, 6 by 250 and 1500 by
  1.5, are exact in doubles, so the multiplication of doubles is the exact one here.\<close>

definition streamProcessor :: processor where
  "streamProcessor = EEGStreamProcessor (*)
     \<lparr> opt_windowDuration = Some 6.0, opt_samplingRate = Some 250.0, opt_adcScale = Some 100.0 \<rparr>"

text \<open>
  What the outside contributes to a session: whether a writable characteristic was found,
  the notifications delivered between the subscription and the check of \<open>packetCount\<close>
  after the first wait of two seconds, those delivered between that check and the end of
  the second wait, the number of times the keep-alive timer fires before the session ends,
  and whether \<open>cleanup\<close> runs (the duration elapses or SIGINT arrives).
\<close>

record environment =
  hasWriteChar :: bool
  notifiedBeforeCheck :: "(int \<times> byte list) list"
  notifiedAfterAltStart :: "(int \<times> byte list) list"
  keepAliveTicks :: nat
  cleanupRuns :: bool

record session =
  sessionProcessor :: processor
  written :: "byte list list"
  keepAliveEnabled :: bool
  writtenLater :: "byte list list"

text \<open>
  \<open>streamEEGData\<close> from the subscription on. JavaScript runs the notification handler
  only while the function is suspended in an \<open>await\<close>, so the packets processed before
  each check are a list. \<open>written\<close> holds the commands passed to \<open>writeAsync\<close> up to the
  installation of the keep-alive timer, in order, and \<open>writtenLater\<close> those of the timer
  and of \<open>cleanup\<close>; a rejected write is caught and logged. \<open>sessionProcessor\<close> is the
  processor at the installation of the timer.
\<close>

definition streamEEGData :: "environment \<Rightarrow> session" where
  "streamEEGData env =
     (let writes1 = (if hasWriteChar env then [CMD_START_STREAM] else []);
          processor1 = run streamProcessor (notifiedBeforeCheck env);
          (writes2, processor2) =
            (if packetCount processor1 = 0 \<and> hasWriteChar env
             then (writes1 @ [CMD_ALT_START], run processor1 (notifiedAfterAltStart env))
             else (writes1, processor1));
          keepAlive = (hasWriteChar env \<and> packetCount processor2 > 0)
      in \<lparr> sessionProcessor = processor2, written = writes2, keepAliveEnabled = keepAlive,
           writtenLater =
             (if keepAlive then replicate (keepAliveTicks env) CMD_KEEP_ALIVE else [])
             @ (if cleanupRuns env \<and> hasWriteChar env then [CMD_STOP_STREAM] else []) \<rparr>)"

text \<open>A notification counts as a sample packet when \<open>processPacket\<close> counts it: it decodes
  to a type-2 packet with at least one sample.\<close>

definition isSamplePacket :: "processor \<Rightarrow> byte list \<Rightarrow> bool" where
  "isSamplePacket this data =
     (case decodePacket this data of
        Inl e \<Rightarrow> False
      | Inr packet \<Rightarrow> packetType packet = 2 \<and> samples packet \<noteq> [])"

section \<open>Vocabulary of the frame layout\<close>

text \<open>The little-endian fields of a frame, read at an offset.\<close>

definition le16 :: "byte list \<Rightarrow> nat \<Rightarrow> nat" where
  "le16 data off = unat (data ! off) + 256 * unat (data ! (off + 1))"

definition le24 :: "byte list \<Rightarrow> nat \<Rightarrow> int" where
  "le24 data off =
     uint (data ! off) + 256 * uint (data ! (off + 1)) + 65536 * uint (data ! (off + 2))"

definition le32 :: "byte list \<Rightarrow> nat \<Rightarrow> nat" where
  "le32 data off = unat (data ! off) + 256 * unat (data ! (off + 1))
                + 65536 * unat (data ! (off + 2)) + 16777216 * unat (data ! (off + 3))"

definition signExtend24 :: "int \<Rightarrow> int" where
  "signExtend24 v = (if bit v 23 then v - 2 ^ 24 else v)"

text \<open>The sample that one pass of the loop produces from the record at \<open>off\<close>, as sample
  number \<open>k\<close>, in closed form; and the number of passes from \<open>off\<close> on.\<close>

definition recordAt :: "real \<Rightarrow> nat \<Rightarrow> byte list \<Rightarrow> nat \<Rightarrow> nat \<Rightarrow> sample" where
  "recordAt scale nch data off k =
     \<lparr> sampleNumber = k,
       sampleIndex = le16 data (off + 4),
       channel = js_mod (le16 data (off + 4)) nch,
       rawValue = signExtend24 (le24 data off),
       voltageUv = real_of_int (signExtend24 (le24 data off)) / scale,
       rawHex = toStringHex (bufferSlice data off (off + 7)) \<rparr>"

definition recordCount :: "byte list \<Rightarrow> nat \<Rightarrow> nat" where
  "recordCount data off = (length data - 10 - off) div 7"

text \<open>\<open>k\<close> records fit between offset 12 and the last 10 bytes of a frame of length \<open>L\<close>;
  \<open>k\<close> is the largest such number.\<close>

definition fits :: "nat \<Rightarrow> nat \<Rightarrow> bool" where
  "fits L k = (12 + 7 * int k \<le> int L - 10)"

definition largestFit :: "nat \<Rightarrow> nat \<Rightarrow> bool" where
  "largestFit L k = (fits L k \<and> (\<forall>j. fits L j \<longrightarrow> j \<le> k))"

text \<open>
  The entries that the samples of one packet, and of a sequence of notifications, contribute
  to the buffer of a channel, in wire order; the last \<open>cap\<close> elements of a list, in their
  order; and the buffer of a channel as a list, empty when the channel has none.
\<close>

definition sampleEntries :: "int \<Rightarrow> jsnum \<Rightarrow> sample list \<Rightarrow> entry list" where
  "sampleEntries t ch ss =
     map (\<lambda>s. \<lparr> time = t, voltage = voltageUv s \<rparr>) (filter (\<lambda>s. channel s = ch) ss)"

definition packetEntries :: "processor \<Rightarrow> jsnum \<Rightarrow> int \<Rightarrow> byte list \<Rightarrow> entry list" where
  "packetEntries this ch t d =
     (case decodePacket this d of Inl e \<Rightarrow> [] | Inr p \<Rightarrow> sampleEntries t ch (samples p))"

definition routedEntries :: "processor \<Rightarrow> jsnum \<Rightarrow> (int \<times> byte list) list \<Rightarrow> entry list" where
  "routedEntries this ch events = concat (map (\<lambda>(t, d). packetEntries this ch t d) events)"

definition keepLast :: "int \<Rightarrow> 'a list \<Rightarrow> 'a list" where
  "keepLast cap xs = drop (length xs - nat cap) xs"

definition bufferOf :: "processor \<Rightarrow> jsnum \<Rightarrow> entry list" where
  "bufferOf this ch = (case channelBuffers this ch of None \<Rightarrow> [] | Some b \<Rightarrow> b)"

text \<open>The buffers of a processor respect its capacity.\<close>

definition withinCapacity :: "processor \<Rightarrow> bool" where
  "withinCapacity this =
     (\<forall>ch buf. channelBuffers this ch = Some buf \<longrightarrow> int (length buf) \<le> maxBufferSamples this)"

section \<open>Concrete frames\<close>

text \<open>The status frame of the regression scenario.\<close>

definition statusFrame :: "byte list" where
  "statusFrame = [0x44, 0x41, 0x54, 0x41, 0x00, 0x01, 0x00, 0x03,
                  0x20, 0x00, 0x00, 0x00, 0x54, 0x48, 0x32, 0x31]"

text \<open>The same frame under the tag \<open>XXXX\<close>.\<close>

definition badHeaderFrame :: "byte list" where
  "badHeaderFrame = [0x58, 0x58, 0x58, 0x58, 0x00, 0x01, 0x00, 0x03,
                     0x20, 0x00, 0x00, 0x00, 0x54, 0x48, 0x32, 0x31]"

text \<open>A type-2 frame that ends with its 12-byte head.\<close>

definition shortBatchFrame :: "byte list" where
  "shortBatchFrame = [0x44, 0x41, 0x54, 0x41, 0x00, 0x02, 0x00, 0x03,
                      0x00, 0x00, 0x00, 0x00]"

text \<open>A type-2 frame for three channels with one record, \<open>01 02 03 00 01 00 00\<close>, and a
  trailer of ten bytes.\<close>

definition oneRecordFrame :: "byte list" where
  "oneRecordFrame = [0x44, 0x41, 0x54, 0x41, 0x00, 0x02, 0x00, 0x03,
                     0x07, 0x00, 0x00, 0x00,
                     0x01, 0x02, 0x03, 0x00, 0x01, 0x00, 0x00,
                     0xA0, 0xA1, 0xA2, 0xA3, 0xA4, 0xA5, 0xA6, 0xA7, 0xA8, 0xA9]"

text \<open>A type-2 frame that declares zero channels, with one record \<open>FF FF FF 00 05 00 00\<close>.\<close>

definition zeroChannelFrame :: "byte list" where
  "zeroChannelFrame = [0x44, 0x41, 0x54, 0x41, 0x00, 0x02, 0x00, 0x00,
                       0x07, 0x00, 0x00, 0x00,
                       0xFF, 0xFF, 0xFF, 0x00, 0x05, 0x00, 0x00,
                       0x00, 0x00, 0x00, 0x00, 0x00, 0x00, 0x00, 0x00, 0x00, 0x00]"

text \<open>A status frame of 19 bytes whose bytes 12 to 16 are \<open>54 48 00 B2 31\<close>: a NUL inside
  the device model and a byte with its highest bit set.\<close>

definition nulStatusFrame :: "byte list" where
  "nulStatusFrame = [0x44, 0x41, 0x54, 0x41, 0x00, 0x01, 0x00, 0x03,
                     0x20, 0x00, 0x00, 0x00, 0x54, 0x48, 0x00, 0xB2, 0x31, 0x41, 0x41]"

text \<open>Options with a window of half a second at 2 Hz, a capacity of one entry, and options
  with a window of minus one second at 250 Hz, a capacity of -375. All their products are
  exact in doubles.\<close>

definition halfSecondOptions :: options where
  "halfSecondOptions =
     \<lparr> opt_windowDuration = Some 0.5, opt_samplingRate = Some 2, opt_adcScale = None \<rparr>"

definition negativeWindowOptions :: options where
  "negativeWindowOptions =
     \<lparr> opt_windowDuration = Some (- 1), opt_samplingRate = Some 250, opt_adcScale = None \<rparr>"

text \<open>Two starts of a session with a writable characteristic: the status frame and a
  sample frame arrive before the check, or the status frame alone.\<close>

definition packetsArrived :: environment where
  "packetsArrived =
     \<lparr> hasWriteChar = True, notifiedBeforeCheck = [(1000, statusFrame), (1040, oneRecordFrame)],
       notifiedAfterAltStart = [], keepAliveTicks = 3, cleanupRuns = True \<rparr>"

definition nothingArrived :: environment where
  "nothingArrived =
     \<lparr> hasWriteChar = True, notifiedBeforeCheck = [(1000, statusFrame)],
       notifiedAfterAltStart = [], keepAliveTicks = 0, cleanupRuns = True \<rparr>"

section \<open>The bitwise arithmetic of the decoder\<close>

lemma toInt32_id: "- 2147483648 \<le> x \<Longrightarrow> x < 2147483648 \<Longrightarrow> toInt32 x = x"
  unfolding toInt32_def by (rule signed_take_bit_int_eq_self) simp_all

lemma uint_byte_bounds: "0 \<le> uint (b::byte)" "uint (b::byte) < 256"
  using uint_lt2p[of b] by simp_all

lemma js_shl_8: "js_shl (uint (b::byte)) 8 = 256 * uint b"
proof -
  have bs: "uint b < 256" "0 \<le> uint b" by (simp_all add: uint_byte_bounds)
  then have "toInt32 (uint b) = uint b" by (intro toInt32_id) linarith+
  moreover from bs have "toInt32 (uint b * 256) = uint b * 256" by (intro toInt32_id) linarith+
  ultimately show ?thesis
    by (simp add: js_shl_def push_bit_eq_mult)
qed

lemma js_shl_16: "js_shl (uint (b::byte)) 16 = 65536 * uint b"
proof -
  have bs: "uint b < 256" "0 \<le> uint b" by (simp_all add: uint_byte_bounds)
  then have "toInt32 (uint b) = uint b" by (intro toInt32_id) linarith+
  moreover from bs have "toInt32 (uint b * 65536) = uint b * 65536" by (intro toInt32_id) linarith+
  ultimately show ?thesis
    by (simp add: js_shl_def push_bit_eq_mult)
qed

lemma or_push_bit_add:
  fixes x y :: int
  assumes "0 \<le> x" "x < 2 ^ n"
  shows "x OR push_bit n y = x + push_bit n y"
proof -
  have "take_bit n x = x" using assms by (simp add: take_bit_int_eq_self)
  then show ?thesis
    using concat_bit_eq[of n x y] by (simp add: concat_bit_def)
qed

lemma le24_js:
  fixes a b c :: byte
  shows "js_or (js_or (uint a) (js_shl (uint b) 8)) (js_shl (uint c) 16)
         = uint a + 256 * uint b + 65536 * uint c"
proof -
  have ba: "0 \<le> uint a" "uint a < 256" and bb: "0 \<le> uint b" "uint b < 256"
    and bc: "0 \<le> uint c" "uint c < 256" by (simp_all add: uint_byte_bounds)
  have t1: "toInt32 (uint a) = uint a" using ba by (intro toInt32_id) linarith+
  have t2: "toInt32 (256 * uint b) = 256 * uint b" using bb by (intro toInt32_id) linarith+
  have t3: "toInt32 (65536 * uint c) = 65536 * uint c" using bc by (intro toInt32_id) linarith+
  have s1: "uint a OR 256 * uint b = uint a + 256 * uint b"
    using or_push_bit_add[of "uint a" 8 "uint b"] ba by (simp add: push_bit_eq_mult mult.commute)
  have t4: "toInt32 (uint a + 256 * uint b) = uint a + 256 * uint b"
    using ba bb by (intro toInt32_id) linarith+
  have s2: "(uint a + 256 * uint b) OR 65536 * uint c = uint a + 256 * uint b + 65536 * uint c"
    using or_push_bit_add[of "uint a + 256 * uint b" 16 "uint c"] ba bb
    by (simp add: push_bit_eq_mult mult.commute)
  have t5: "toInt32 (uint a + 256 * uint b + 65536 * uint c) = uint a + 256 * uint b + 65536 * uint c"
    using ba bb bc by (intro toInt32_id) linarith+
  show ?thesis
    by (simp add: js_or_def js_shl_8 js_shl_16 t1 t2 t3 s1 t4 s2 t5)
qed

lemma js_and_sign:
  fixes v :: int
  assumes "0 \<le> v" "v < 16777216"
  shows "(js_and v 0x800000 \<noteq> 0) = bit v 23"
proof -
  have t1: "toInt32 v = v" using assms by (intro toInt32_id) linarith+
  have t2: "toInt32 8388608 = 8388608" by (intro toInt32_id) simp_all
  have e: "(8388608::int) = 2 ^ 23" by simp
  have b: "0 \<le> v AND 8388608" "v AND 8388608 \<le> 8388608"
    using assms by (simp_all add: AND_upper2)
  have t3: "toInt32 (v AND 8388608) = v AND 8388608" using b by (intro toInt32_id) linarith+
  show ?thesis
    unfolding js_and_def t1 t2 t3 using and_exp_eq_0_iff_not_bit[of v 23] by simp
qed

lemma bit23_iff:
  fixes v :: int
  assumes "0 \<le> v" "v < 16777216"
  shows "bit v 23 = (8388608 \<le> v)"
proof -
  have "bit v 23 = odd (v div 2 ^ 23)" by (simp add: bit_iff_odd)
  moreover have "v div 2 ^ 23 = 0 \<or> v div 2 ^ 23 = 1" using assms by simp linarith
  ultimately show ?thesis using assms by auto
qed

lemma le24_bounds: "0 \<le> le24 data off" "le24 data off < 16777216"
proof -
  have "0 \<le> uint (data ! off)" "uint (data ! off) < 256"
       "0 \<le> uint (data ! (off + 1))" "uint (data ! (off + 1)) < 256"
       "0 \<le> uint (data ! (off + 2))" "uint (data ! (off + 2)) < 256"
    by (simp_all add: uint_byte_bounds)
  then show "0 \<le> le24 data off" "le24 data off < 16777216"
    unfolding le24_def by linarith+
qed

lemma decode_step:
  assumes "int offset + 7 \<le> int (length data) - 10"
  shows "decodeSamples scale nch data offset acc =
         decodeSamples scale nch data (offset + 7) (acc @ [recordAt scale nch data offset (length acc)])"
proof -
  have r: "readUInt16LE data (offset + 4) = Inr (le16 data (offset + 4))"
    using assms by (simp add: readUInt16LE_def le16_def add.assoc)
  have v: "js_or (js_or (uint (data ! offset)) (js_shl (uint (data ! (offset + 1))) 8))
                 (js_shl (uint (data ! (offset + 2))) 16) = le24 data offset"
    by (simp add: le24_js le24_def)
  have s: "(js_and (le24 data offset) 0x800000 \<noteq> 0) = bit (le24 data offset) 23"
    by (rule js_and_sign) (simp_all add: le24_bounds)
  show ?thesis
    apply (subst decodeSamples.simps)
    apply (simp only: assms if_True v Let_def r sum.case s)
    apply (simp add: recordAt_def signExtend24_def)
    done
qed

lemma decode_stop:
  assumes "\<not> int offset + 7 \<le> int (length data) - 10"
  shows "decodeSamples scale nch data offset acc = Inr acc"
  using assms by (subst decodeSamples.simps) simp

lemma recordCount_0: "recordCount data offset = 0 \<longleftrightarrow> \<not> int offset + 7 \<le> int (length data) - 10"
  unfolding recordCount_def by (auto simp: div_eq_0_iff)

lemma recordCount_step:
  "int offset + 7 \<le> int (length data) - 10 \<Longrightarrow>
   recordCount data offset = Suc (recordCount data (offset + 7))"
proof -
  assume c: "int offset + 7 \<le> int (length data) - 10"
  define m where "m = length data - 10 - (offset + 7)"
  have "length data - 10 - offset = m + 7" unfolding m_def using c by linarith
  then have "recordCount data offset = (m + 7) div 7"
    unfolding recordCount_def by (rule arg_cong)
  also have "\<dots> = Suc (m div 7)" by simp
  finally show ?thesis unfolding recordCount_def m_def .
qed

lemma decodeSamples_closed:
  "decodeSamples scale nch data offset acc =
     Inr (acc @ map (\<lambda>j. recordAt scale nch data (offset + 7 * j) (length acc + j))
                    [0..<recordCount data offset])"
proof (induction n \<equiv> "recordCount data offset" arbitrary: offset acc)
  case 0
  then have "\<not> int offset + 7 \<le> int (length data) - 10"
    using recordCount_0[of data offset] by simp
  from decode_stop[OF this] 0 show ?case by simp
next
  case (Suc n)
  then have c: "int offset + 7 \<le> int (length data) - 10"
    using recordCount_0[of data offset] by simp
  have cnt: "recordCount data offset = Suc (recordCount data (offset + 7))"
    by (rule recordCount_step[OF c])
  with Suc have "n = recordCount data (offset + 7)" by simp
  note ih = Suc.hyps(1)[OF this, of "acc @ [recordAt scale nch data offset (length acc)]"]
  show ?case
    unfolding decode_step[OF c] ih cnt map_upt_Suc
    by (simp add: add.assoc)
qed

lemma decodePacket_short: "length data < 12 \<Longrightarrow> decodePacket this data = Inl (TooShort (length data))"
  by (simp add: decodePacket_def)

lemma decodePacket_status:
  assumes "12 \<le> length data" "data ! 5 = 1"
  shows "decodePacket this data =
     Inr \<lparr> header = toStringAscii data 0 4, packetType = 1, numChannels = unat (data ! 7),
           payloadSize = le32 data 8, samples = [],
           deviceModel = Some (removeNUL (toStringAscii data 12 17)) \<rparr>"
  using assms by (simp add: decodePacket_def readUInt32LE_def le32_def)

lemma decodePacket_batch:
  assumes "12 \<le> length data" "data ! 5 = 2"
  shows "decodePacket this data =
     Inr \<lparr> header = toStringAscii data 0 4, packetType = 2, numChannels = unat (data ! 7),
           payloadSize = le32 data 8,
           samples = map (\<lambda>j. recordAt (adcScale this) (unat (data ! 7)) data (12 + 7 * j) j)
                         [0..<recordCount data 12],
           deviceModel = None \<rparr>"
  using assms by (simp add: decodePacket_def readUInt32LE_def le32_def decodeSamples_closed)

lemma decodePacket_other:
  assumes "12 \<le> length data" "data ! 5 \<noteq> 1" "data ! 5 \<noteq> 2"
  shows "decodePacket this data =
     Inr \<lparr> header = toStringAscii data 0 4, packetType = unat (data ! 5), numChannels = unat (data ! 7),
           payloadSize = le32 data 8, samples = [], deviceModel = None \<rparr>"
proof -
  have "unat (data ! 5) \<noteq> 1" "unat (data ! 5) \<noteq> 2"
    using assms(2,3) by (simp_all add: word_unat_eq_iff)
  then show ?thesis using assms(1) by (simp add: decodePacket_def readUInt32LE_def le32_def)
qed

lemma decodePacket_total:
  assumes "12 \<le> length data"
  shows "\<exists>p. decodePacket this data = Inr p \<and> header p = toStringAscii data 0 4"
proof -
  consider "data ! 5 = 1" | "data ! 5 = 2" | "data ! 5 \<noteq> 1" "data ! 5 \<noteq> 2" by blast
  then show ?thesis
  proof cases
    case 1 then show ?thesis using decodePacket_status[OF assms, of this] by simp
  next
    case 2 then show ?thesis using decodePacket_batch[OF assms, of this] by simp
  next
    case 3 then show ?thesis using decodePacket_other[OF assms, of this] by simp
  qed
qed

text \<open>
  Claim C7. \<open>decodePacket\<close> raises the too-short error exactly for the inputs of fewer than
  12 bytes, and it returns a packet exactly for the inputs of at least 12 bytes: no input
  of 12 bytes or more raises this or any other error.
\<close>

theorem C7_too_short:
  "((\<exists>n. decodePacket this data = Inl (TooShort n)) \<longleftrightarrow> length data < 12)
   \<and> ((\<exists>p. decodePacket this data = Inr p) \<longleftrightarrow> 12 \<le> length data)"
proof (cases "length data < 12")
  case True
  then show ?thesis by (simp add: decodePacket_short)
next
  case False
  then have "12 \<le> length data" by simp
  from decodePacket_total[OF this, of this] obtain p where "decodePacket this data = Inr p" by blast
  with False show ?thesis by simp
qed

lemma statusFrame_decoded:
  "decodePacket this statusFrame =
     Inr \<lparr> header = ''DATA'', packetType = 1, numChannels = 3, payloadSize = 32, samples = [],
           deviceModel = Some ''TH21'' \<rparr>"
  by (simp add: decodePacket_def statusFrame_def readUInt32LE_def toStringAscii_def
        asciiChar_def removeNUL_def char_of_def bit_Suc_0_iff)

lemma nulStatusFrame_decoded:
  "decodePacket this nulStatusFrame =
     Inr \<lparr> header = ''DATA'', packetType = 1, numChannels = 3, payloadSize = 32, samples = [],
           deviceModel = Some ''TH21'' \<rparr>"
  by (simp add: decodePacket_def nulStatusFrame_def readUInt32LE_def toStringAscii_def
        asciiChar_def removeNUL_def char_of_def bit_Suc_0_iff)

text \<open>
  Claim C9. A type-1 frame decodes to a packet whose device model is the ASCII text of
  bytes 12 to 16 (offsets 12..17, end excluded; every byte without its highest bit) from
  which every NUL character is removed: it has at most five characters, none of them NUL.
  The 16-byte frame \<open>44 41 54 41 00 01 00 03 20 00 00 00 54 48 32 31\<close> gives the device
  model TH21, and so does a frame whose bytes 12 to 16 are \<open>54 48 00 B2 31\<close>.
\<close>

theorem C9_status_device_model:
  "(12 \<le> length data \<and> data ! 5 = 1 \<longrightarrow>
      (\<exists>p. decodePacket this data = Inr p \<and> packetType p = 1 \<and>
           deviceModel p =
             Some (filter (\<lambda>c. c \<noteq> CHR 0x00)
                     (map (\<lambda>b. char_of (unat (b AND 0x7F))) (take 5 (drop 12 data)))) \<and>
           (\<exists>m. deviceModel p = Some m \<and> CHR 0x00 \<notin> set m \<and> length m \<le> 5)))
   \<and> (\<exists>p. decodePacket this statusFrame = Inr p \<and> deviceModel p = Some ''TH21'')
   \<and> (\<exists>p. decodePacket this nulStatusFrame = Inr p \<and> deviceModel p = Some ''TH21'')"
proof -
  have l: "length (filter (\<lambda>c. c \<noteq> CHR 0x00)
             (map (\<lambda>b. char_of (unat (b AND 0x7F))) (take 5 (drop 12 data)))) \<le> 5"
    by (rule order_trans[OF length_filter_le]) simp
  have "removeNUL (toStringAscii data 12 17) =
          filter (\<lambda>c. c \<noteq> CHR 0x00) (map (\<lambda>b. char_of (unat (b AND 0x7F))) (take 5 (drop 12 data)))"
    by (simp add: removeNUL_def toStringAscii_def asciiChar_def[abs_def])
  then show ?thesis
    using l by (simp add: decodePacket_status statusFrame_decoded nulStatusFrame_decoded)
qed

theorem C9_status_device_model_witness:
  "12 \<le> length nulStatusFrame \<and> nulStatusFrame ! 5 = 1 \<and>
   (\<exists>p. decodePacket streamProcessor nulStatusFrame = Inr p \<and> packetType p = 1 \<and>
        deviceModel p = Some ''TH21'')"
proof -
  have h: "12 \<le> length nulStatusFrame \<and> nulStatusFrame ! 5 = 1"
    by (simp add: nulStatusFrame_def)
  have e: "filter (\<lambda>c. c \<noteq> CHR 0x00)
             (map (\<lambda>b. char_of (unat (b AND 0x7F))) (take 5 (drop 12 nulStatusFrame))) = ''TH21''"
    by (simp add: nulStatusFrame_def char_of_def bit_Suc_0_iff)
  from C9_status_device_model[of nulStatusFrame streamProcessor] h
  obtain p where "decodePacket streamProcessor nulStatusFrame = Inr p" "packetType p = 1"
    "deviceModel p = Some (filter (\<lambda>c. c \<noteq> CHR 0x00)
                     (map (\<lambda>b. char_of (unat (b AND 0x7F))) (take 5 (drop 12 nulStatusFrame))))"
    by blast
  with h e show ?thesis by simp
qed

text \<open>
  Claim C1. In a type-2 frame, the raw value of the \<open>k\<close>-th decoded sample is the 24-bit
  little-endian field \<open>v\<close> at the start of the \<open>k\<close>-th record: \<open>v\<close> itself when bit 23
  of \<open>v\<close> is clear, and \<open>v - 2^24\<close> when it is set.
\<close>

theorem C1_sign_extension:
  assumes "12 \<le> length data" "data ! 5 = 2"
  shows "\<exists>p. decodePacket this data = Inr p \<and> length (samples p) = recordCount data 12 \<and>
           (\<forall>k < length (samples p).
              0 \<le> le24 data (12 + 7 * k) \<and> le24 data (12 + 7 * k) < 2 ^ 24 \<and>
              rawValue (samples p ! k) =
                (if bit (le24 data (12 + 7 * k)) 23
                 then le24 data (12 + 7 * k) - 2 ^ 24
                 else le24 data (12 + 7 * k)))"
  using le24_bounds
  by (simp add: decodePacket_batch[OF assms] recordAt_def signExtend24_def)

theorem C1_sign_extension_witness:
  "12 \<le> length zeroChannelFrame \<and> zeroChannelFrame ! 5 = 2 \<and>
   (\<exists>p. decodePacket streamProcessor zeroChannelFrame = Inr p \<and>
        length (samples p) = recordCount zeroChannelFrame 12 \<and>
        (\<forall>k < length (samples p).
           0 \<le> le24 zeroChannelFrame (12 + 7 * k) \<and> le24 zeroChannelFrame (12 + 7 * k) < 2 ^ 24 \<and>
           rawValue (samples p ! k) =
             (if bit (le24 zeroChannelFrame (12 + 7 * k)) 23
              then le24 zeroChannelFrame (12 + 7 * k) - 2 ^ 24
              else le24 zeroChannelFrame (12 + 7 * k))))"
proof -
  have h1: "12 \<le> length zeroChannelFrame" by (simp add: zeroChannelFrame_def)
  have h2: "zeroChannelFrame ! 5 = 2" by (simp add: zeroChannelFrame_def)
  from C1_sign_extension[OF h1 h2, of streamProcessor] h1 h2 show ?thesis by blast
qed

section \<open>Frames that are accepted as they come\<close>

text \<open>
  Claim C10. The channel-count byte is not validated: a type-2 frame of at least 29 bytes
  (room for one record) whose byte 7 is 0 still decodes to a packet, with at least one
  sample, and the channel of every decoded sample is NaN.
\<close>

theorem C10_zero_channel_count:
  assumes "29 \<le> length data" "data ! 5 = 2" "data ! 7 = 0"
  shows "\<exists>p. decodePacket this data = Inr p \<and> packetType p = 2 \<and> numChannels p = 0 \<and>
           samples p \<noteq> [] \<and> (\<forall>s \<in> set (samples p). channel s = NaN)"
proof -
  have l: "12 \<le> length data" using assms(1) by simp
  have "int 12 + 7 \<le> int (length data) - 10" using assms(1) by simp
  then have "recordCount data 12 \<noteq> 0" using recordCount_0[of data 12] by simp
  then show ?thesis
    by (simp add: decodePacket_batch[OF l assms(2)] assms(3) recordAt_def js_mod_def)
qed

lemma zeroChannelFrame_decoded:
  "decodePacket this zeroChannelFrame =
     Inr \<lparr> header = ''DATA'', packetType = 2, numChannels = 0, payloadSize = 7,
           samples = [\<lparr> sampleNumber = 0, sampleIndex = 5, channel = NaN, rawValue = - 1,
                        voltageUv = - 1 / adcScale this, rawHex = ''ffffff00050000'' \<rparr>],
           deviceModel = None \<rparr>"
proof -
  have l: "12 \<le> length zeroChannelFrame" by (simp add: zeroChannelFrame_def)
  have t: "zeroChannelFrame ! 5 = 2" by (simp add: zeroChannelFrame_def)
  have c: "recordCount zeroChannelFrame 12 = 1" by (simp add: recordCount_def zeroChannelFrame_def)
  show ?thesis
    unfolding decodePacket_batch[OF l t] c
    by (simp add: zeroChannelFrame_def recordAt_def le16_def le24_def le32_def signExtend24_def
          js_mod_def toStringAscii_def asciiChar_def char_of_def bit_Suc_0_iff
          toStringHex_def bufferSlice_def hexDigit_def bit_iff_odd)
qed

theorem C10_zero_channel_count_witness:
  "29 \<le> length zeroChannelFrame \<and> zeroChannelFrame ! 5 = 2 \<and> zeroChannelFrame ! 7 = 0 \<and>
   (\<exists>p. decodePacket streamProcessor zeroChannelFrame = Inr p \<and> packetType p = 2 \<and>
        numChannels p = 0 \<and> samples p \<noteq> [] \<and> (\<forall>s \<in> set (samples p). channel s = NaN))"
proof -
  have h1: "29 \<le> length zeroChannelFrame" by (simp add: zeroChannelFrame_def)
  have h2: "zeroChannelFrame ! 5 = 2" by (simp add: zeroChannelFrame_def)
  have h3: "zeroChannelFrame ! 7 = 0" by (simp add: zeroChannelFrame_def)
  from C10_zero_channel_count[OF h1 h2 h3, of streamProcessor] h1 h2 h3 show ?thesis by blast
qed

text \<open>
  Claim C8 as stated fails: the status frame under the tag \<open>XXXX\<close> instead of
  \<open>DATA\<close> decodes to a status packet.
\<close>

theorem C8_bad_header_accepted:
  "take 4 badHeaderFrame \<noteq> [0x44, 0x41, 0x54, 0x41] \<and>
   decodePacket streamProcessor badHeaderFrame =
     Inr \<lparr> header = ''XXXX'', packetType = 1, numChannels = 3, payloadSize = 32, samples = [],
           deviceModel = Some ''TH21'' \<rparr>"
  by (simp add: decodePacket_def badHeaderFrame_def readUInt32LE_def toStringAscii_def
        asciiChar_def removeNUL_def char_of_def bit_Suc_0_iff)

text \<open>
  Claim C8, as amended. \<open>decodePacket\<close> does not validate the tag: every input of at
  least 12 bytes decodes to a packet, whatever its first four bytes are, and the packet's
  header field holds their ASCII decoding.
\<close>

theorem C8_header_not_validated:
  assumes "12 \<le> length data"
  shows "\<exists>p. decodePacket this data = Inr p \<and> header p = map asciiChar (take 4 data)"
  using decodePacket_total[OF assms, of this] by (simp add: toStringAscii_def)

theorem C8_header_not_validated_witness:
  "12 \<le> length badHeaderFrame \<and>
   (\<exists>p. decodePacket streamProcessor badHeaderFrame = Inr p \<and>
        header p = map asciiChar (take 4 badHeaderFrame))"
proof -
  have h: "12 \<le> length badHeaderFrame" by (simp add: badHeaderFrame_def)
  from C8_header_not_validated[OF h, of streamProcessor] h show ?thesis by blast
qed

section \<open>The extent of the record loop\<close>

lemma record_before_trailer:
  assumes "k < recordCount data 12"
  shows "12 + 7 * k + 7 \<le> length data - 10"
proof -
  have "Suc k \<le> (length data - 10 - 12) div 7" using assms by (simp add: recordCount_def)
  then have "Suc k * 7 \<le> length data - 10 - 12" by (simp add: less_eq_div_iff_mult_less_eq)
  then show ?thesis by simp
qed

lemma recordCount_eq: "recordCount data 12 = (length data - 22) div 7"
  by (simp add: recordCount_def)

lemma not_fits_next: "\<not> fits (length data) (Suc (recordCount data 12))"
proof -
  have "n < 7 * Suc (n div 7)" for n :: nat by presburger
  from this[of "length data - 22"] show ?thesis
    unfolding fits_def recordCount_eq by linarith
qed

lemma largestFit_recordCount:
  assumes "22 \<le> length data"
  shows "largestFit (length data) (recordCount data 12)"
proof -
  have a: "7 * ((length data - 22) div 7) \<le> length data - 22" by simp
  have f: "fits (length data) (recordCount data 12)"
    using a assms unfolding fits_def recordCount_eq by linarith
  have m: "j \<le> recordCount data 12" if "fits (length data) j" for j
  proof -
    from that assms have "7 * j \<le> length data - 22" unfolding fits_def by linarith
    then have "j \<le> (length data - 22) div 7" by (simp add: less_eq_div_iff_mult_less_eq mult.commute)
    then show ?thesis by (simp add: recordCount_eq)
  qed
  show ?thesis unfolding largestFit_def using f m by blast
qed

lemma no_fit_short: "length data < 22 \<Longrightarrow> \<not> fits (length data) k"
  by (simp add: fits_def)

lemma take_drop_take:
  assumes "k + n \<le> m"
  shows "take n (drop k (take m xs)) = take n (drop k xs)"
proof -
  have "take n (drop k (take m xs)) = take n (take (m - k) (drop k xs))" by (simp add: drop_take)
  also have "\<dots> = take n (drop k xs)" using assms by (simp add: min_def)
  finally show ?thesis .
qed

lemma recordAt_cong:
  assumes "take m data' = take m data" "off + 7 \<le> m"
  shows "recordAt scale nch data' off k = recordAt scale nch data off k"
proof -
  have n: "data' ! i = data ! i" if "i < m" for i
    using that assms(1) by (metis nth_take)
  have s: "bufferSlice data' off (off + 7) = bufferSlice data off (off + 7)"
    unfolding bufferSlice_def
    using take_drop_take[of off 7 m data'] take_drop_take[of off 7 m data] assms by simp
  have i: "off < m" "off + 1 < m" "off + 2 < m" "off + 4 < m" "off + 4 + 1 < m"
    using assms(2) by simp_all
  show ?thesis
    unfolding recordAt_def le16_def le24_def s
    by (simp only: n[OF i(1)] n[OF i(2)] n[OF i(3)] n[OF i(4)] n[OF i(5)])
qed

lemma decodePacket_no_records:
  assumes "12 \<le> length data" "recordCount data 12 = 0"
  shows "\<exists>p. decodePacket this data = Inr p \<and> samples p = []"
proof -
  consider "data ! 5 = 1" | "data ! 5 = 2" | "data ! 5 \<noteq> 1" "data ! 5 \<noteq> 2" by blast
  then show ?thesis
  proof cases
    case 1 then show ?thesis using decodePacket_status[OF assms(1), of this] by simp
  next
    case 2 then show ?thesis using decodePacket_batch[OF assms(1), of this] assms(2) by simp
  next
    case 3 then show ?thesis using decodePacket_other[OF assms(1), of this] by simp
  qed
qed

lemma trailer_independent:
  assumes "12 \<le> length data" "data ! 5 = 2" "length data' = length data"
    and "take (length data - 10) data' = take (length data - 10) data"
  shows "\<exists>p'. decodePacket this data' = Inr p' \<and>
           samples p' = map (\<lambda>j. recordAt (adcScale this) (unat (data ! 7)) data (12 + 7 * j) j)
                            [0..<recordCount data 12]"
proof (cases "recordCount data 12 = 0")
  case True
  have l': "12 \<le> length data'" using assms(1,3) by simp
  have "recordCount data' 12 = 0" using True by (simp add: recordCount_def assms(3))
  from decodePacket_no_records[OF l' this, of this] True show ?thesis by simp
next
  case False
  let ?n = "recordCount data 12"
  have l': "12 \<le> length data'" using assms(1,3) by simp
  have "0 < ?n" using False by simp
  from record_before_trailer[OF this] have big: "19 \<le> length data - 10" by simp
  have n: "data' ! i = data ! i" if "i < length data - 10" for i
    using that assms(4) by (metis nth_take)
  have t': "data' ! 5 = 2" using n[of 5] big assms(2) by simp
  have c': "data' ! 7 = data ! 7" using n[of 7] big by simp
  have n': "recordCount data' 12 = ?n" by (simp add: recordCount_def assms(3))
  have r: "recordAt (adcScale this) (unat (data ! 7)) data' (12 + 7 * j) j
           = recordAt (adcScale this) (unat (data ! 7)) data (12 + 7 * j) j" if "j < ?n" for j
    by (rule recordAt_cong[OF assms(4) record_before_trailer[OF that]])
  have "map (\<lambda>j. recordAt (adcScale this) (unat (data ! 7)) data' (12 + 7 * j) j) [0..<?n]
      = map (\<lambda>j. recordAt (adcScale this) (unat (data ! 7)) data (12 + 7 * j) j) [0..<?n]"
    by (rule map_cong[OF refl]) (simp add: r)
  then show ?thesis
    by (simp add: decodePacket_batch[OF l' t'] n' c')
qed

lemma oneRecordFrame_decoded:
  "decodePacket this oneRecordFrame =
     Inr \<lparr> header = ''DATA'', packetType = 2, numChannels = 3, payloadSize = 7,
           samples = [\<lparr> sampleNumber = 0, sampleIndex = 1, channel = Num 1, rawValue = 197121,
                        voltageUv = 197121 / adcScale this, rawHex = ''01020300010000'' \<rparr>],
           deviceModel = None \<rparr>"
proof -
  have l: "12 \<le> length oneRecordFrame" by (simp add: oneRecordFrame_def)
  have t: "oneRecordFrame ! 5 = 2" by (simp add: oneRecordFrame_def)
  have c: "recordCount oneRecordFrame 12 = 1" by (simp add: recordCount_def oneRecordFrame_def)
  show ?thesis
    unfolding decodePacket_batch[OF l t] c
    by (simp add: oneRecordFrame_def recordAt_def le16_def le24_def le32_def signExtend24_def
          js_mod_def toStringAscii_def asciiChar_def char_of_def bit_Suc_0_iff
          toStringHex_def bufferSlice_def hexDigit_def bit_iff_odd)
qed

text \<open>
  Claim C3 as stated fails for the frames of 12 to 21 bytes: a type-2 frame of 12 bytes
  decodes to a packet without samples, and 0 is not the largest \<open>k\<close> with
  \<open>12 + 7k \<le> L - 10\<close>, since no \<open>k\<close> satisfies the inequality.
\<close>

theorem C3_short_frame_no_largest_fit:
  "decodePacket streamProcessor shortBatchFrame =
     Inr \<lparr> header = ''DATA'', packetType = 2, numChannels = 3, payloadSize = 0, samples = [],
           deviceModel = None \<rparr>
   \<and> \<not> largestFit (length shortBatchFrame) (length ([] :: sample list))"
proof -
  have l: "12 \<le> length shortBatchFrame" by (simp add: shortBatchFrame_def)
  have t: "shortBatchFrame ! 5 = 2" by (simp add: shortBatchFrame_def)
  have c: "recordCount shortBatchFrame 12 = 0" by (simp add: recordCount_def shortBatchFrame_def)
  have d: "decodePacket streamProcessor shortBatchFrame =
     Inr \<lparr> header = ''DATA'', packetType = 2, numChannels = 3, payloadSize = 0, samples = [],
           deviceModel = None \<rparr>"
    unfolding decodePacket_batch[OF l t] c
    by (simp add: shortBatchFrame_def le32_def toStringAscii_def asciiChar_def char_of_def
          bit_Suc_0_iff)
  have "\<not> fits (length shortBatchFrame) 0" by (simp add: fits_def shortBatchFrame_def)
  then show ?thesis using d by (simp add: largestFit_def)
qed

text \<open>
  Claim C3, as amended. For a type-2 frame of length \<open>L \<ge> 12\<close>, the samples are decoded
  from the consecutive 7-byte records that start at offset 12; every decoded record ends at
  or before offset \<open>L - 10\<close>, and the loop stops exactly when one more record would not:
  the number of samples is \<open>(L - 22) div 7\<close>, which is the largest \<open>k\<close> with
  \<open>12 + 7k \<le> L - 10\<close> when \<open>L \<ge> 22\<close>, and 0 when \<open>L < 22\<close>, where no such \<open>k\<close>
  exists. The samples do not depend on the last 10 bytes of the frame.
\<close>

theorem C3_record_parsing:
  assumes "12 \<le> length data" "data ! 5 = 2"
  shows "\<exists>p. decodePacket this data = Inr p \<and>
           samples p = map (\<lambda>k. recordAt (adcScale this) (numChannels p) data (12 + 7 * k) k)
                           [0..<length (samples p)] \<and>
           (\<forall>k < length (samples p). 12 + 7 * k + 7 \<le> length data - 10) \<and>
           \<not> fits (length data) (Suc (length (samples p))) \<and>
           length (samples p) = (length data - 22) div 7 \<and>
           (22 \<le> length data \<longrightarrow> largestFit (length data) (length (samples p))) \<and>
           (length data < 22 \<longrightarrow> samples p = [] \<and> (\<forall>k. \<not> fits (length data) k)) \<and>
           (\<forall>data'. length data' = length data \<and>
                    take (length data - 10) data' = take (length data - 10) data \<longrightarrow>
                    (\<exists>p'. decodePacket this data' = Inr p' \<and> samples p' = samples p))"
proof -
  let ?n = "recordCount data 12"
  let ?p = "\<lparr> header = toStringAscii data 0 4, packetType = 2, numChannels = unat (data ! 7),
             payloadSize = le32 data 8,
             samples = map (\<lambda>j. recordAt (adcScale this) (unat (data ! 7)) data (12 + 7 * j) j)
                           [0..<?n],
             deviceModel = None \<rparr>"
  have d: "decodePacket this data = Inr ?p" by (rule decodePacket_batch[OF assms])
  have len: "length (samples ?p) = ?n" by simp
  have a: "samples ?p = map (\<lambda>k. recordAt (adcScale this) (numChannels ?p) data (12 + 7 * k) k)
                           [0..<length (samples ?p)]" by simp
  have b: "\<forall>k < length (samples ?p). 12 + 7 * k + 7 \<le> length data - 10"
    using record_before_trailer[of _ data] by simp
  have c: "\<not> fits (length data) (Suc (length (samples ?p)))"
    unfolding len by (rule not_fits_next)
  have e: "length (samples ?p) = (length data - 22) div 7"
    unfolding len by (rule recordCount_eq)
  have f: "22 \<le> length data \<longrightarrow> largestFit (length data) (length (samples ?p))"
    unfolding len using largestFit_recordCount[of data] by blast
  have g: "length data < 22 \<longrightarrow> samples ?p = [] \<and> (\<forall>k. \<not> fits (length data) k)"
    using no_fit_short[of data] by (simp add: recordCount_eq)
  have h: "\<forall>data'. length data' = length data \<and>
                    take (length data - 10) data' = take (length data - 10) data \<longrightarrow>
                    (\<exists>p'. decodePacket this data' = Inr p' \<and> samples p' = samples ?p)"
    using trailer_independent[OF assms, of _ this] by simp
  show ?thesis
    apply (rule exI[of _ ?p])
    apply (intro conjI)
           apply (rule d)
          apply (rule a)
         apply (rule b)
        apply (rule c)
       apply (rule e)
      apply (rule f)
     apply (rule g)
    apply (rule h)
    done
qed

theorem C3_record_parsing_witness:
  "12 \<le> length oneRecordFrame \<and> oneRecordFrame ! 5 = 2 \<and>
   (\<exists>p. decodePacket streamProcessor oneRecordFrame = Inr p \<and>
        length (samples p) = 1 \<and> largestFit (length oneRecordFrame) (length (samples p)))"
proof -
  have h1: "12 \<le> length oneRecordFrame" by (simp add: oneRecordFrame_def)
  have h2: "oneRecordFrame ! 5 = 2" by (simp add: oneRecordFrame_def)
  have h3: "22 \<le> length oneRecordFrame" by (simp add: oneRecordFrame_def)
  have h4: "(length oneRecordFrame - 22) div 7 = 1" by (simp add: oneRecordFrame_def)
  from C3_record_parsing[OF h1 h2, of streamProcessor] h1 h2 h3 h4 show ?thesis by auto
qed

lemma adcScale_streamProcessor: "adcScale streamProcessor = 100"
  by (simp add: streamProcessor_def EEGStreamProcessor_def orDefault_def)

text \<open>
  Claim C2 at the frame with the single record \<open>01 02 03 00 01 00 00\<close> for three
  channels. The decoder reads the sequence index at record offset 4 (bytes 4 and 5: the
  value 1, channel 1), while the little-endian index at record bytes 5 and 6, which the
  claim and the repository's description of the sample format name, is 0 (channel 0). The
  voltage is the raw value over the scale, as claimed.
\<close>

theorem C2_index_read_at_offset_4:
  "decodePacket streamProcessor oneRecordFrame =
     Inr \<lparr> header = ''DATA'', packetType = 2, numChannels = 3, payloadSize = 7,
           samples = [\<lparr> sampleNumber = 0, sampleIndex = 1, channel = Num 1, rawValue = 197121,
                        voltageUv = 197121 / 100, rawHex = ''01020300010000'' \<rparr>],
           deviceModel = None \<rparr>
   \<and> le16 oneRecordFrame (12 + 5) = 0
   \<and> js_mod (le16 oneRecordFrame (12 + 5)) 3 = Num 0"
proof -
  have e: "le16 oneRecordFrame (12 + 5) = 0" by (simp add: le16_def oneRecordFrame_def)
  show ?thesis
    unfolding e by (simp add: oneRecordFrame_decoded adcScale_streamProcessor js_mod_def)
qed

section \<open>The capacity of the channel buffers\<close>

lemma pushSample_fields [simp]:
  "maxBufferSamples (pushSample t this s) = maxBufferSamples this"
  "adcScale (pushSample t this s) = adcScale this"
  "windowDuration (pushSample t this s) = windowDuration this"
  "samplingRate (pushSample t this s) = samplingRate this"
  "packetCount (pushSample t this s) = packetCount this"
  by (simp_all add: pushSample_def Let_def split: option.splits)

lemma pushSample_channel:
  "channelBuffers (pushSample t this s) (channel s) =
     Some (let old = (case channelBuffers this (channel s) of None \<Rightarrow> [] | Some b \<Rightarrow> b);
               new = old @ [\<lparr> time = t, voltage = voltageUv s \<rparr>]
           in if int (length new) > maxBufferSamples this then tl new else new)"
  by (simp add: pushSample_def Let_def split: option.splits)

lemma pushSample_other:
  "ch \<noteq> channel s \<Longrightarrow> channelBuffers (pushSample t this s) ch = channelBuffers this ch"
  by (simp add: pushSample_def Let_def split: option.splits)

lemma pushSample_withinCapacity:
  assumes "0 \<le> maxBufferSamples this" "withinCapacity this"
  shows "withinCapacity (pushSample t this s)"
  unfolding withinCapacity_def
proof (intro allI impI)
  fix ch buf
  assume b: "channelBuffers (pushSample t this s) ch = Some buf"
  show "int (length buf) \<le> maxBufferSamples (pushSample t this s)"
  proof (cases "ch = channel s")
    case False
    with b have "channelBuffers this ch = Some buf" by (simp add: pushSample_other)
    with assms(2) show ?thesis by (simp add: withinCapacity_def)
  next
    case True
    define old where "old = (case channelBuffers this (channel s) of None \<Rightarrow> [] | Some b \<Rightarrow> b)"
    have o: "int (length old) \<le> maxBufferSamples this"
      using assms unfolding old_def withinCapacity_def by (auto split: option.splits)
    from b True have "buf = (let new = old @ [\<lparr> time = t, voltage = voltageUv s \<rparr>]
           in if int (length new) > maxBufferSamples this then tl new else new)"
      by (simp add: pushSample_channel old_def Let_def)
    with o show ?thesis by (simp add: Let_def split: if_splits)
  qed
qed

lemma foldl_pushSample_fields [simp]:
  "maxBufferSamples (foldl (pushSample t) this ss) = maxBufferSamples this"
  "adcScale (foldl (pushSample t) this ss) = adcScale this"
  "windowDuration (foldl (pushSample t) this ss) = windowDuration this"
  "samplingRate (foldl (pushSample t) this ss) = samplingRate this"
  "packetCount (foldl (pushSample t) this ss) = packetCount this"
  by (induction ss arbitrary: this) simp_all

lemma foldl_pushSample_withinCapacity:
  "0 \<le> maxBufferSamples this \<Longrightarrow> withinCapacity this \<Longrightarrow>
   withinCapacity (foldl (pushSample t) this ss)"
  by (induction ss arbitrary: this) (simp_all add: pushSample_withinCapacity)

lemma withinCapacity_cong:
  "channelBuffers a = channelBuffers b \<Longrightarrow> maxBufferSamples a = maxBufferSamples b \<Longrightarrow>
   withinCapacity a = withinCapacity b"
  by (simp add: withinCapacity_def)

lemma processPacket_fields [simp]:
  "maxBufferSamples (processPacket t this d) = maxBufferSamples this"
  "adcScale (processPacket t this d) = adcScale this"
  "windowDuration (processPacket t this d) = windowDuration this"
  "samplingRate (processPacket t this d) = samplingRate this"
  by (simp_all add: processPacket_def Let_def split: sum.splits)

lemma processPacket_withinCapacity:
  assumes "0 \<le> maxBufferSamples this" "withinCapacity this"
  shows "withinCapacity (processPacket t this d)"
proof (cases "decodePacket this d")
  case (Inl e)
  then show ?thesis using assms(2) by (simp add: processPacket_def)
next
  case (Inr p)
  show ?thesis
  proof (cases "packetType p = 1 \<or> packetType p \<noteq> 2 \<or> samples p = []")
    case True
    then show ?thesis using assms(2) Inr by (auto simp: processPacket_def)
  next
    case False
    define this2 where "this2 =
      (if startTime (this \<lparr> packetCount := packetCount this + 1 \<rparr>) = None \<or>
          startTime (this \<lparr> packetCount := packetCount this + 1 \<rparr>) = Some 0
       then this \<lparr> packetCount := packetCount this + 1 \<rparr> \<lparr> startTime := Some t \<rparr>
       else this \<lparr> packetCount := packetCount this + 1 \<rparr>)"
    have w2: "withinCapacity this2" "0 \<le> maxBufferSamples this2"
      using assms by (simp_all add: this2_def withinCapacity_def)
    have w3: "withinCapacity (foldl (pushSample t) this2 (samples p))"
      by (rule foldl_pushSample_withinCapacity[OF w2(2) w2(1)])
    have "withinCapacity (processPacket t this d) = withinCapacity (foldl (pushSample t) this2 (samples p))"
      using Inr False by (intro withinCapacity_cong) (simp_all add: processPacket_def Let_def this2_def)
    with w3 show ?thesis by simp
  qed
qed

lemma run_snoc: "run this (events @ [(t, d)]) = processPacket t (run this events) d"
  by (simp add: run_def)

lemma run_Nil: "run this [] = this"
  by (simp add: run_def)

lemma run_fields_conj:
  "maxBufferSamples (run this events) = maxBufferSamples this \<and>
   adcScale (run this events) = adcScale this \<and>
   windowDuration (run this events) = windowDuration this \<and>
   samplingRate (run this events) = samplingRate this"
proof (induction events rule: rev_induct)
  case Nil
  show ?case by (simp add: run_Nil)
next
  case (snoc x xs)
  then show ?case by (cases x) (simp add: run_snoc)
qed

lemma run_fields [simp]:
  "maxBufferSamples (run this events) = maxBufferSamples this"
  "adcScale (run this events) = adcScale this"
  "windowDuration (run this events) = windowDuration this"
  "samplingRate (run this events) = samplingRate this"
  using run_fields_conj[of this events] by simp_all

lemma run_withinCapacity:
  "0 \<le> maxBufferSamples this \<Longrightarrow> withinCapacity this \<Longrightarrow> withinCapacity (run this events)"
proof (induction events rule: rev_induct)
  case Nil
  then show ?case by (simp add: run_def)
next
  case (snoc e events)
  obtain t d where e: "e = (t, d)" by (cases e)
  show ?case unfolding e run_snoc
    by (rule processPacket_withinCapacity) (simp_all add: snoc)
qed

lemma keepLast_fits: "int (length xs) \<le> cap \<Longrightarrow> keepLast cap xs = xs"
  by (simp add: keepLast_def)

lemma length_keepLast: "0 \<le> cap \<Longrightarrow> int (length (keepLast cap xs)) \<le> cap"
  by (simp add: keepLast_def)

lemma keepLast_append:
  assumes "0 \<le> cap"
  shows "keepLast cap (keepLast cap xs @ ys) = keepLast cap (xs @ ys)"
proof (cases "length xs \<le> nat cap")
  case True
  then show ?thesis by (simp add: keepLast_def)
next
  case False
  define a where "a = length xs - nat cap"
  have la: "length (drop a xs) = nat cap" using False by (simp add: a_def)
  have l2: "length (drop a xs @ ys) - nat cap = length ys"
    unfolding length_append la by simp
  have "keepLast cap (keepLast cap xs @ ys) =
          drop (length (drop a xs @ ys) - nat cap) (drop a xs @ ys)"
    by (simp only: keepLast_def a_def)
  also have "\<dots> = drop (length ys) (drop a xs @ ys)" by (simp only: l2)
  also have "drop a xs @ ys = drop a (xs @ ys)" using False by (simp add: a_def)
  also have "drop (length ys) (drop a (xs @ ys)) = drop (length ys + a) (xs @ ys)"
    by (rule drop_drop)
  also have "length ys + a = length (xs @ ys) - nat cap" using False by (simp add: a_def)
  finally show ?thesis by (simp only: keepLast_def)
qed

lemma push_shift_keepLast:
  assumes "0 \<le> cap" "int (length old) \<le> cap"
  shows "(let new = old @ [e] in if int (length new) > cap then tl new else new)
         = keepLast cap (old @ [e])"
proof (cases "int (length old) < cap")
  case True
  then show ?thesis by (simp add: keepLast_def Let_def)
next
  case False
  with assms have c: "nat cap = length old" by simp
  have d: "drop (Suc 0) zs = tl zs" for zs :: "'a list" by (simp add: drop_Suc)
  have "keepLast cap (old @ [e]) = drop (Suc 0) (old @ [e])"
    unfolding keepLast_def c by simp
  then have "keepLast cap (old @ [e]) = tl (old @ [e])" by (simp only: d)
  moreover have "int (length (old @ [e])) > cap" using False assms by simp
  ultimately show ?thesis by (simp only: Let_def if_True)
qed

lemma bufferOf_pushSample:
  assumes "0 \<le> maxBufferSamples this" "withinCapacity this"
  shows "channelBuffers (pushSample t this s) ch =
           (if ch = channel s
            then Some (keepLast (maxBufferSamples this)
                         (bufferOf this ch @ [\<lparr> time = t, voltage = voltageUv s \<rparr>]))
            else channelBuffers this ch)"
proof (cases "ch = channel s")
  case False
  then show ?thesis by (simp add: pushSample_other)
next
  case True
  have o: "int (length (bufferOf this (channel s))) \<le> maxBufferSamples this"
    using assms unfolding bufferOf_def withinCapacity_def by (auto split: option.splits)
  show ?thesis
    unfolding True pushSample_channel
    using push_shift_keepLast[OF assms(1) o, of "\<lparr> time = t, voltage = voltageUv s \<rparr>"]
    by (simp add: bufferOf_def Let_def)
qed

lemma bufferOf_eq: "channelBuffers this ch = Some b \<Longrightarrow> bufferOf this ch = b"
  by (simp add: bufferOf_def)

lemma foldl_pushSample_buffers:
  assumes "0 \<le> maxBufferSamples this" "withinCapacity this"
  shows "channelBuffers (foldl (pushSample t) this ss) ch =
           (if sampleEntries t ch ss = [] then channelBuffers this ch
            else Some (keepLast (maxBufferSamples this) (bufferOf this ch @ sampleEntries t ch ss)))"
  using assms
proof (induction ss arbitrary: this)
  case Nil
  then show ?case by (simp add: sampleEntries_def)
next
  case (Cons s ss)
  let ?cap = "maxBufferSamples this"
  let ?next = "pushSample t this s"
  have c': "0 \<le> maxBufferSamples ?next" using Cons.prems(1) by simp
  have w': "withinCapacity ?next"
    by (rule pushSample_withinCapacity[OF Cons.prems])
  note ih = Cons.IH[OF c' w']
  note step = bufferOf_pushSample[OF Cons.prems, of t s ch]
  show ?case
  proof (cases "channel s = ch")
    case False
    then have e: "sampleEntries t ch (s # ss) = sampleEntries t ch ss"
      by (simp add: sampleEntries_def)
    from False have b: "channelBuffers ?next ch = channelBuffers this ch"
      using step by auto
    then have b': "bufferOf ?next ch = bufferOf this ch" by (simp add: bufferOf_def)
    show ?thesis
      unfolding foldl_Cons ih e b b' by simp
  next
    case True
    let ?e = "\<lparr> time = t, voltage = voltageUv s \<rparr>"
    have e: "sampleEntries t ch (s # ss) = ?e # sampleEntries t ch ss"
      using True by (simp add: sampleEntries_def)
    have b: "channelBuffers ?next ch = Some (keepLast ?cap (bufferOf this ch @ [?e]))"
      using step True by simp
    have b': "bufferOf ?next ch = keepLast ?cap (bufferOf this ch @ [?e])"
      by (rule bufferOf_eq[OF b])
    have k: "keepLast ?cap (keepLast ?cap (bufferOf this ch @ [?e]) @ sampleEntries t ch ss)
             = keepLast ?cap (bufferOf this ch @ ?e # sampleEntries t ch ss)"
      using keepLast_append[OF Cons.prems(1), of "bufferOf this ch @ [?e]" "sampleEntries t ch ss"]
      by simp
    show ?thesis
      unfolding foldl_Cons ih e b b' pushSample_fields k by simp
  qed
qed

lemma decodePacket_samples_only_type2:
  assumes "decodePacket this d = Inr p" "packetType p \<noteq> 2"
  shows "samples p = []"
proof (cases "length d < 12")
  case True
  with assms(1) show ?thesis by (simp add: decodePacket_short)
next
  case False
  then have l: "12 \<le> length d" by simp
  consider "d ! 5 = 1" | "d ! 5 = 2" | "d ! 5 \<noteq> 1" "d ! 5 \<noteq> 2" by blast
  then show ?thesis
  proof cases
    case 1
    with assms(1) decodePacket_status[OF l 1, of this] show ?thesis by auto
  next
    case 2
    with assms decodePacket_batch[OF l 2, of this] show ?thesis by auto
  next
    case 3
    with assms(1) decodePacket_other[OF l 3, of this] show ?thesis by auto
  qed
qed

lemma channelBuffers_processPacket:
  assumes "0 \<le> maxBufferSamples this" "withinCapacity this"
  shows "channelBuffers (processPacket t this d) ch =
           (if packetEntries this ch t d = [] then channelBuffers this ch
            else Some (keepLast (maxBufferSamples this) (bufferOf this ch @ packetEntries this ch t d)))"
proof (cases "decodePacket this d")
  case (Inl e)
  then show ?thesis by (simp add: processPacket_def packetEntries_def)
next
  case (Inr p)
  have pe: "packetEntries this ch t d = sampleEntries t ch (samples p)"
    by (simp add: packetEntries_def Inr)
  show ?thesis
  proof (cases "packetType p = 1 \<or> packetType p \<noteq> 2 \<or> samples p = []")
    case True
    then have "samples p = []" using decodePacket_samples_only_type2[OF Inr] by auto
    then have "packetEntries this ch t d = []" by (simp add: pe sampleEntries_def)
    moreover have "processPacket t this d = this" using True Inr by (auto simp: processPacket_def)
    ultimately show ?thesis by simp
  next
    case False
    define this2 where "this2 =
      (if startTime (this \<lparr> packetCount := packetCount this + 1 \<rparr>) = None \<or>
          startTime (this \<lparr> packetCount := packetCount this + 1 \<rparr>) = Some 0
       then this \<lparr> packetCount := packetCount this + 1 \<rparr> \<lparr> startTime := Some t \<rparr>
       else this \<lparr> packetCount := packetCount this + 1 \<rparr>)"
    have w2: "withinCapacity this2" "0 \<le> maxBufferSamples this2"
      using assms by (simp_all add: this2_def withinCapacity_def)
    have m2: "maxBufferSamples this2 = maxBufferSamples this" by (simp add: this2_def)
    have b2: "channelBuffers this2 = channelBuffers this" by (simp add: this2_def)
    then have bo2: "bufferOf this2 ch = bufferOf this ch" by (simp add: bufferOf_def)
    have "channelBuffers (processPacket t this d) = channelBuffers (foldl (pushSample t) this2 (samples p))"
      using Inr False by (simp add: processPacket_def Let_def this2_def)
    then have "channelBuffers (processPacket t this d) ch =
                 channelBuffers (foldl (pushSample t) this2 (samples p)) ch" by simp
    also have "\<dots> = (if sampleEntries t ch (samples p) = [] then channelBuffers this2 ch
            else Some (keepLast (maxBufferSamples this2)
                         (bufferOf this2 ch @ sampleEntries t ch (samples p))))"
      by (rule foldl_pushSample_buffers[OF w2(2) w2(1)])
    finally show ?thesis by (simp only: pe m2 b2 bo2)
  qed
qed

lemma decodePacket_adcScale:
  assumes "adcScale a = adcScale b"
  shows "decodePacket a d = decodePacket b d"
  unfolding decodePacket_def assms ..

lemma packetEntries_adcScale:
  "adcScale a = adcScale b \<Longrightarrow> packetEntries a ch t d = packetEntries b ch t d"
  by (simp add: packetEntries_def decodePacket_adcScale[of a b])

lemma routedEntries_snoc:
  "routedEntries this ch (events @ [(t, d)]) = routedEntries this ch events @ packetEntries this ch t d"
  by (simp add: routedEntries_def)

lemma channelBuffers_run:
  assumes "0 \<le> maxBufferSamples this" "withinCapacity this"
  shows "channelBuffers (run this events) ch =
           (if routedEntries this ch events = [] then channelBuffers this ch
            else Some (keepLast (maxBufferSamples this) (bufferOf this ch @ routedEntries this ch events)))"
proof (induction events rule: rev_induct)
  case Nil
  show ?case by (simp add: run_Nil routedEntries_def)
next
  case (snoc x xs)
  obtain t d where x: "x = (t, d)" by (cases x)
  let ?mid = "run this xs"
  let ?cap = "maxBufferSamples this"
  let ?R = "routedEntries this ch xs"
  let ?es = "packetEntries this ch t d"
  have c: "0 \<le> maxBufferSamples ?mid" using assms(1) by simp
  have w: "withinCapacity ?mid" by (rule run_withinCapacity[OF assms])
  have pe: "packetEntries ?mid ch t d = ?es" by (rule packetEntries_adcScale) simp
  have step: "channelBuffers (run this (xs @ [(t, d)])) ch =
           (if ?es = [] then channelBuffers ?mid ch
            else Some (keepLast ?cap (bufferOf ?mid ch @ ?es)))"
    unfolding run_snoc channelBuffers_processPacket[OF c w] pe by simp
  have rs: "routedEntries this ch (xs @ [(t, d)]) = ?R @ ?es" by (rule routedEntries_snoc)
  have ih: "channelBuffers ?mid ch =
           (if ?R = [] then channelBuffers this ch
            else Some (keepLast ?cap (bufferOf this ch @ ?R)))" by (rule snoc)
  show ?case
  proof (cases "?es = []")
    case True
    then show ?thesis unfolding x step rs ih by simp
  next
    case False
    show ?thesis
    proof (cases "?R = []")
      case True
      then have "bufferOf ?mid ch = bufferOf this ch" using ih by (simp add: bufferOf_def)
      then show ?thesis unfolding x step rs using False True by simp
    next
      case R: False
      then have "bufferOf ?mid ch = keepLast ?cap (bufferOf this ch @ ?R)"
        using ih by (simp add: bufferOf_def)
      then have "keepLast ?cap (bufferOf ?mid ch @ ?es) = keepLast ?cap (bufferOf this ch @ ?R @ ?es)"
        using keepLast_append[OF assms(1), of "bufferOf this ch @ ?R" ?es] by simp
      then show ?thesis unfolding x step rs using False R by simp
    qed
  qed
qed

lemma constructor_withinCapacity: "withinCapacity (EEGStreamProcessor mulDouble opts)"
  by (simp add: withinCapacity_def EEGStreamProcessor_def Let_def)

lemma constructor_buffers: "channelBuffers (EEGStreamProcessor mulDouble opts) ch = None"
  by (simp add: EEGStreamProcessor_def Let_def)

lemma constructor_capacity:
  "maxBufferSamples (EEGStreamProcessor mulDouble opts) =
     \<lfloor>mulDouble (mulDouble (windowDuration (EEGStreamProcessor mulDouble opts))
                           (samplingRate (EEGStreamProcessor mulDouble opts))) 1.5\<rfloor>"
  by (simp add: EEGStreamProcessor_def Let_def)

text \<open>
  Claim C4, as amended. For a processor constructed with a non-negative capacity, in every
  state that a sequence of packets leads to, the capacity is the floor of the product of
  doubles \<open>windowDuration * samplingRate * 1.5\<close>, and the buffer of a channel holds exactly
  the last capacity-many of all entries routed to the channel so far, in their order of
  arrival: never more than the capacity, the oldest entries evicted first, the order of the
  others preserved. One more packet appends its entries for the channel in the same way,
  and each single append to a state within the capacity keeps every buffer within the
  capacity and evicts exactly the first entry of the buffer when the buffer was full.
\<close>

theorem C4_buffer_capacity:
  assumes "0 \<le> maxBufferSamples (EEGStreamProcessor mulDouble opts)"
    and "this = run (EEGStreamProcessor mulDouble opts) events"
    and "cap = \<lfloor>mulDouble (mulDouble (windowDuration this) (samplingRate this)) 1.5\<rfloor>"
    and "routed = routedEntries (EEGStreamProcessor mulDouble opts) ch events"
  shows "maxBufferSamples this = cap
    \<and> channelBuffers this ch = (if routed = [] then None else Some (keepLast cap routed))
    \<and> (\<forall>buf. channelBuffers this ch = Some buf \<longrightarrow> int (length buf) \<le> cap)
    \<and> channelBuffers (processPacket t this d) ch =
        (if packetEntries this ch t d = [] then channelBuffers this ch
         else Some (keepLast cap (bufferOf this ch @ packetEntries this ch t d)))
    \<and> (\<forall>st s. withinCapacity st \<and> maxBufferSamples st = cap \<longrightarrow>
          withinCapacity (pushSample t st s) \<and>
          channelBuffers (pushSample t st s) (channel s) =
            Some (if int (length (bufferOf st (channel s))) < cap
                  then bufferOf st (channel s) @ [\<lparr> time = t, voltage = voltageUv s \<rparr>]
                  else tl (bufferOf st (channel s) @ [\<lparr> time = t, voltage = voltageUv s \<rparr>])))"
proof -
  let ?p0 = "EEGStreamProcessor mulDouble opts"
  have m: "maxBufferSamples this = cap"
    unfolding assms(2,3) using constructor_capacity[of mulDouble opts] by simp
  have m0: "maxBufferSamples ?p0 = cap" using m unfolding assms(2) by simp
  have c: "0 \<le> cap" using assms(1) m0 by simp
  have w0: "withinCapacity ?p0" by (rule constructor_withinCapacity)
  have w: "withinCapacity this" unfolding assms(2) by (rule run_withinCapacity[OF assms(1) w0])
  have b0: "bufferOf ?p0 ch = []" by (simp add: bufferOf_def constructor_buffers)
  have r: "channelBuffers this ch = (if routed = [] then None else Some (keepLast cap routed))"
    unfolding assms(2) channelBuffers_run[OF assms(1) w0] assms(4) b0 m0 constructor_buffers
    by simp
  have bnd: "\<forall>buf. channelBuffers this ch = Some buf \<longrightarrow> int (length buf) \<le> cap"
    using w m unfolding withinCapacity_def by auto
  have pk: "channelBuffers (processPacket t this d) ch =
        (if packetEntries this ch t d = [] then channelBuffers this ch
         else Some (keepLast cap (bufferOf this ch @ packetEntries this ch t d)))"
    using channelBuffers_processPacket[OF _ w, of t d ch] c m by simp
  have ps: "withinCapacity (pushSample t st s) \<and>
          channelBuffers (pushSample t st s) (channel s) =
            Some (if int (length (bufferOf st (channel s))) < cap
                  then bufferOf st (channel s) @ [\<lparr> time = t, voltage = voltageUv s \<rparr>]
                  else tl (bufferOf st (channel s) @ [\<lparr> time = t, voltage = voltageUv s \<rparr>]))"
    if st: "withinCapacity st" "maxBufferSamples st = cap" for st s
  proof -
    have c': "0 \<le> maxBufferSamples st" using c st(2) by simp
    have o: "int (length (bufferOf st (channel s))) \<le> cap"
      using st c unfolding bufferOf_def withinCapacity_def by (auto split: option.splits)
    have "channelBuffers (pushSample t st s) (channel s) =
            Some (if int (length (bufferOf st (channel s))) < cap
                  then bufferOf st (channel s) @ [\<lparr> time = t, voltage = voltageUv s \<rparr>]
                  else tl (bufferOf st (channel s) @ [\<lparr> time = t, voltage = voltageUv s \<rparr>]))"
      unfolding pushSample_channel bufferOf_def[symmetric] st(2) using o by (simp add: Let_def)
    with pushSample_withinCapacity[OF c' st(1), of t s] show ?thesis by simp
  qed
  from m r bnd pk ps show ?thesis by blast
qed

lemma negativeWindow_processor:
  "EEGStreamProcessor (*) negativeWindowOptions =
     \<lparr> windowDuration = - 1, samplingRate = 250, adcScale = 100,
       channelBuffers = Map.empty, maxBufferSamples = - 375,
       packetCount = 0, sampleCount = 0, startTime = None,
       lastAnalysisTime = Map.empty, analysisInterval = 2000 \<rparr>"
  by (simp add: EEGStreamProcessor_def negativeWindowOptions_def orDefault_def Let_def)

text \<open>
  Claim C4 as stated fails where the product is negative, which the constructor does not
  exclude: with a window of minus one second at 250 Hz the capacity is -375, and after one
  packet the buffer of channel 1 exists and holds no entry, which is more than -375.
\<close>

theorem C4_negative_capacity_exceeded:
  "maxBufferSamples (run (EEGStreamProcessor (*) negativeWindowOptions) [(1000, oneRecordFrame)])
     = \<lfloor>(- 1) * 250 * (1.5 :: real)\<rfloor>
   \<and> channelBuffers (run (EEGStreamProcessor (*) negativeWindowOptions) [(1000, oneRecordFrame)])
        (Num 1) = Some []
   \<and> \<not> int (length ([] :: entry list)) \<le> \<lfloor>(- 1) * 250 * (1.5 :: real)\<rfloor>"
  unfolding negativeWindow_processor
  by (simp add: run_def processPacket_def oneRecordFrame_decoded pushSample_def Let_def)

lemma halfSecond_processor:
  "EEGStreamProcessor (*) halfSecondOptions =
     \<lparr> windowDuration = 0.5, samplingRate = 2, adcScale = 100,
       channelBuffers = Map.empty, maxBufferSamples = 1,
       packetCount = 0, sampleCount = 0, startTime = None,
       lastAnalysisTime = Map.empty, analysisInterval = 2000 \<rparr>"
  by (simp add: EEGStreamProcessor_def halfSecondOptions_def orDefault_def Let_def)

lemma halfSecond_routed:
  "routedEntries (EEGStreamProcessor (*) halfSecondOptions) (Num 1)
     [(1000, oneRecordFrame), (1040, oneRecordFrame)]
   = [\<lparr> time = 1000, voltage = 197121 / 100 \<rparr>, \<lparr> time = 1040, voltage = 197121 / 100 \<rparr>]"
  unfolding halfSecond_processor
  by (simp add: routedEntries_def packetEntries_def oneRecordFrame_decoded sampleEntries_def)

theorem C4_buffer_capacity_witness:
  "0 \<le> maxBufferSamples (EEGStreamProcessor (*) halfSecondOptions)
   \<and> maxBufferSamples (run (EEGStreamProcessor (*) halfSecondOptions)
        [(1000, oneRecordFrame), (1040, oneRecordFrame)]) = 1
   \<and> channelBuffers (run (EEGStreamProcessor (*) halfSecondOptions)
        [(1000, oneRecordFrame), (1040, oneRecordFrame)]) (Num 1)
      = Some [\<lparr> time = 1040, voltage = 197121 / 100 \<rparr>]"
proof -
  let ?p0 = "EEGStreamProcessor (*) halfSecondOptions"
  let ?evs = "[(1000, oneRecordFrame), (1040, oneRecordFrame)]"
  have h: "0 \<le> maxBufferSamples ?p0" by (simp add: halfSecond_processor)
  have c: "\<lfloor>windowDuration (run ?p0 ?evs) * samplingRate (run ?p0 ?evs) * 1.5\<rfloor> = 1"
    by (simp add: halfSecond_processor)
  have k: "keepLast 1 [\<lparr> time = 1000, voltage = 197121 / 100 \<rparr>,
                       \<lparr> time = 1040, voltage = 197121 / (100::real) \<rparr>]
           = [\<lparr> time = 1040, voltage = 197121 / 100 \<rparr>]"
    by (simp add: keepLast_def)
  note T = C4_buffer_capacity[where mulDouble = "(*)" and opts = halfSecondOptions
      and events = ?evs and ch = "Num 1", OF h refl refl refl]
  have m: "maxBufferSamples (run ?p0 ?evs) = 1"
    using T[THEN conjunct1] unfolding c .
  have r: "channelBuffers (run ?p0 ?evs) (Num 1) = Some [\<lparr> time = 1040, voltage = 197121 / 100 \<rparr>]"
    using T[THEN conjunct2, THEN conjunct1] unfolding c halfSecond_routed k by simp
  from h m r show ?thesis by blast
qed

section \<open>The fallback of the start command\<close>

lemma isSamplePacket_iff: "isSamplePacket this d \<longleftrightarrow> 29 \<le> length d \<and> d ! 5 = 2"
proof (cases "length d < 12")
  case True
  then show ?thesis by (simp add: isSamplePacket_def decodePacket_short)
next
  case False
  then have l: "12 \<le> length d" by simp
  consider "d ! 5 = 1" | "d ! 5 = 2" | "d ! 5 \<noteq> 1" "d ! 5 \<noteq> 2" by blast
  then show ?thesis
  proof cases
    case 1
    then show ?thesis by (simp add: isSamplePacket_def decodePacket_status[OF l])
  next
    case 2
    have "(recordCount d 12 \<noteq> 0) = (29 \<le> length d)"
      using recordCount_0[of d 12] by auto
    then show ?thesis using 2 by (simp add: isSamplePacket_def decodePacket_batch[OF l 2])
  next
    case 3
    then have "unat (d ! 5) \<noteq> 2" by (simp add: word_unat_eq_iff)
    with 3 show ?thesis by (simp add: isSamplePacket_def decodePacket_other[OF l 3])
  qed
qed

lemma packetCount_processPacket:
  "packetCount (processPacket t this d) = packetCount this + (if isSamplePacket this d then 1 else 0)"
  by (simp add: processPacket_def isSamplePacket_def Let_def split: sum.splits)

lemma packetCount_run:
  "packetCount (run this events) =
     packetCount this + length (filter (\<lambda>(t, d). 29 \<le> length d \<and> d ! 5 = 2) events)"
proof (induction events rule: rev_induct)
  case Nil
  show ?case by (simp add: run_Nil)
next
  case (snoc x xs)
  then show ?case
    by (cases x) (simp add: run_snoc packetCount_processPacket isSamplePacket_iff)
qed

lemma packetCount_streamProcessor: "packetCount streamProcessor = 0"
  by (simp add: streamProcessor_def EEGStreamProcessor_def Let_def)

lemma packetCount_run_pos:
  "0 < packetCount (run streamProcessor events) \<longleftrightarrow>
     (\<exists>(t, d) \<in> set events. isSamplePacket streamProcessor d)"
proof -
  have "0 < length (filter (\<lambda>(t, d). 29 \<le> length d \<and> d ! 5 = 2) events) \<longleftrightarrow>
        (\<exists>x \<in> set events. (\<lambda>(t, d). 29 \<le> length d \<and> d ! 5 = 2) x)"
    unfolding length_greater_0_conv by (simp add: filter_empty_conv)
  then show ?thesis
    by (simp add: packetCount_run packetCount_streamProcessor isSamplePacket_iff split_def)
qed

text \<open>
  Claim C6. In a session with a writable characteristic, the start command is written
  first. If \<open>packetCount\<close> is still 0 at the check after the wait, the alternative start
  command is written next. If a sample packet was delivered before the check, the
  alternative start command is never written, neither before the keep-alive timer is
  installed, where the start command stays the only one, nor by the timer or the cleanup;
  and the keep-alive timer of the streaming phase is installed.
\<close>

theorem C6_handshake:
  assumes "hasWriteChar env"
  shows "(packetCount (run streamProcessor (notifiedBeforeCheck env)) = 0 \<longrightarrow>
            written (streamEEGData env) = [CMD_START_STREAM, CMD_ALT_START])
       \<and> ((\<exists>(t, d) \<in> set (notifiedBeforeCheck env). isSamplePacket streamProcessor d) \<longrightarrow>
            0 < packetCount (run streamProcessor (notifiedBeforeCheck env)) \<and>
            written (streamEEGData env) = [CMD_START_STREAM] \<and>
            CMD_ALT_START \<notin> set (written (streamEEGData env) @ writtenLater (streamEEGData env)) \<and>
            keepAliveEnabled (streamEEGData env))"
proof -
  have ne: "CMD_ALT_START \<noteq> CMD_START_STREAM" "CMD_ALT_START \<noteq> CMD_KEEP_ALIVE"
    "CMD_ALT_START \<noteq> CMD_STOP_STREAM"
    by (simp_all add: CMD_ALT_START_def CMD_START_STREAM_def CMD_KEEP_ALIVE_def CMD_STOP_STREAM_def)
  show ?thesis
    using assms ne unfolding packetCount_run_pos[symmetric]
    by (auto simp: streamEEGData_def Let_def)
qed

theorem C6_handshake_witness:
  "hasWriteChar nothingArrived
   \<and> packetCount (run streamProcessor (notifiedBeforeCheck nothingArrived)) = 0
   \<and> written (streamEEGData nothingArrived) = [CMD_START_STREAM, CMD_ALT_START]
   \<and> hasWriteChar packetsArrived
   \<and> (\<exists>(t, d) \<in> set (notifiedBeforeCheck packetsArrived). isSamplePacket streamProcessor d)
   \<and> written (streamEEGData packetsArrived) = [CMD_START_STREAM]
   \<and> CMD_ALT_START \<notin> set (written (streamEEGData packetsArrived)
                                @ writtenLater (streamEEGData packetsArrived))
   \<and> keepAliveEnabled (streamEEGData packetsArrived)"
proof -
  have a: "hasWriteChar nothingArrived" by (simp add: nothingArrived_def)
  have b: "packetCount (run streamProcessor (notifiedBeforeCheck nothingArrived)) = 0"
    by (simp add: packetCount_run packetCount_streamProcessor nothingArrived_def statusFrame_def)
  have c: "hasWriteChar packetsArrived" by (simp add: packetsArrived_def)
  have d: "\<exists>(t, d) \<in> set (notifiedBeforeCheck packetsArrived). isSamplePacket streamProcessor d"
    by (simp add: packetsArrived_def isSamplePacket_iff oneRecordFrame_def)
  from C6_handshake[OF a] C6_handshake[OF c] a b c d show ?thesis by blast
qed

end
